theory Spec2Isabelle
  imports Main "HOL-Library.Sublist"
begin

section \<open>Data model\<close>

text \<open>
  A JavaScript function object, as far as the plugin looks at it: the name of its
  constructor (\<^verbatim>\<open>func.constructor.name\<close>, which is \<^verbatim>\<open>AsyncFunction\<close> for a
  function declared \<^verbatim>\<open>async\<close>) and a reference to its body. The bodies live in a
  program table (below), so that a body can enqueue functions, itself included.
\<close>

record fn =
  constructor_name :: string
  body :: nat

text \<open>
  \<^verbatim>\<open>const isAsyncFunction = (func) => func.constructor.name === 'AsyncFunction'\<close>
\<close>

definition isAsyncFunction :: "fn \<Rightarrow> bool" where
  "isAsyncFunction f = (constructor_name f = ''AsyncFunction'')"

text \<open>
  A thrown value. JavaScript can throw anything: \<open>Error msg\<close> is
  \<^verbatim>\<open>new Error(msg)\<close>, \<open>Thrown x\<close> any other value.
\<close>

datatype 'e thrown = Error string | Thrown 'e

text \<open>
  How a promise ends: fulfilled (with no value, the promises here are
  \<^verbatim>\<open>Promise<void>\<close>), rejected with a thrown value, or pending for ever.
\<close>

datatype 'e settlement = Fulfilled | Rejected "'e thrown" | Pending

text \<open>
  \<^verbatim>\<open>class BackgroundTask\<close>: the three read-only fields \<^verbatim>\<open>func\<close>,
  \<^verbatim>\<open>args\<close> and \<^verbatim>\<open>isAsync\<close>.
\<close>

record 'v BackgroundTask =
  func :: fn
  args :: "'v list"
  isAsync :: bool

text \<open>
  What one call of a function body does: the rest of the program's state \<open>'w\<close> after the
  call, the \<^verbatim>\<open>addTask\<close> calls it made on the queue (in order), and how the value it
  returned settles once awaited. A call that throws synchronously and a call that returns a
  rejected promise both give \<open>Rejected\<close>: \<^verbatim>\<open>await\<close> inside an \<^verbatim>\<open>async\<close>
  method does not tell them apart. A body reaches the queue through \<^verbatim>\<open>addTask\<close>
  only, and before the value it returned settles; what it starts and leaves running
  afterwards is not part of this sequential model.
\<close>

record ('v, 'e, 'w) outcome =
  world_after :: 'w
  added :: "(fn \<times> 'v list) list"
  settles :: "'e settlement"

type_synonym ('v, 'e, 'w) program = "nat \<Rightarrow> 'v list \<Rightarrow> 'w \<Rightarrow> ('v, 'e, 'w) outcome"

text \<open>
  The state the plugin works on: the \<^verbatim>\<open>tasks\<close> array of one
  \<^verbatim>\<open>BackgroundTasks\<close> instance, the rest of the program's state, and the calls of
  \<^verbatim>\<open>console.error\<close> made by the plugin (tag and error).
\<close>

record ('v, 'e, 'w) state =
  tasks :: "'v BackgroundTask list"
  world :: 'w
  console_error :: "(string \<times> 'e thrown) list"

section \<open>BackgroundTask\<close>

text \<open>
  \<^verbatim>\<open>constructor(func, ...args) { this.func = func; this.args = args;
  this.isAsync = isAsyncFunction(func); }\<close>
\<close>

definition BackgroundTask_new :: "fn \<Rightarrow> 'v list \<Rightarrow> 'v BackgroundTask" where
  "BackgroundTask_new f as = \<lparr>func = f, args = as, isAsync = isAsyncFunction f\<rparr>"

section \<open>BackgroundTasks\<close>

text \<open>
  \<^verbatim>\<open>addTask(func, ...args) { const task = new BackgroundTask(func, ...args);
  this.tasks.push(task); }\<close>
\<close>

definition addTask :: "fn \<Rightarrow> 'v list \<Rightarrow> ('v, 'e, 'w) state \<Rightarrow> ('v, 'e, 'w) state" where
  "addTask f as s = s\<lparr>tasks := tasks s @ [BackgroundTask_new f as]\<rparr>"

text \<open>The \<^verbatim>\<open>addTask\<close> calls a function body made, replayed in order.\<close>

fun addTasks :: "(fn \<times> 'v list) list \<Rightarrow> ('v, 'e, 'w) state \<Rightarrow> ('v, 'e, 'w) state" where
  "addTasks [] s = s"
| "addTasks ((f, as) # cs) s = addTasks cs (addTask f as s)"

text \<open>
  \<^verbatim>\<open>async run() { if (this.isAsync) { await this.func(...this.args); }
  else { throw new Error('Background task does not support synchronous functions. ...'); } }\<close>
\<close>

definition sync_not_supported :: "'e thrown" where
  "sync_not_supported =
     Error ''Background task does not support synchronous functions. Please use async functions.''"

definition BackgroundTask_run ::
  "('v, 'e, 'w) program \<Rightarrow> 'v BackgroundTask \<Rightarrow> ('v, 'e, 'w) state
     \<Rightarrow> 'e settlement \<times> ('v, 'e, 'w) state" where
  "BackgroundTask_run env t s =
     (if isAsync t then
        (let out = env (body (func t)) (args t) (world s)
         in (settles out, addTasks (added out) (s\<lparr>world := world_after out\<rparr>)))
      else (Rejected sync_not_supported, s))"

text \<open>
  \<^verbatim>\<open>async run() { for (const task of this.tasks) { await task.run(); } }\<close>

  The array iterator compares its index with the array's current length at every step, so
  the loop is over the live array. A rejected \<^verbatim>\<open>await\<close> leaves the loop with that
  rejection; an \<^verbatim>\<open>await\<close> that never settles leaves the drain pending. The loop
  need not end (a task may enqueue itself): \<open>None\<close> is a drain that runs for ever.
\<close>

partial_function (option) run_from ::
  "('v, 'e, 'w) program \<Rightarrow> nat \<Rightarrow> ('v, 'e, 'w) state
     \<Rightarrow> ('e settlement \<times> ('v, 'e, 'w) state) option" where
  "run_from env i s =
     (if i < length (tasks s) then
        (case BackgroundTask_run env (tasks s ! i) s of
           (Fulfilled, s') \<Rightarrow> run_from env (Suc i) s'
         | (Rejected e, s') \<Rightarrow> Some (Rejected e, s')
         | (Pending, s') \<Rightarrow> Some (Pending, s'))
      else Some (Fulfilled, s))"

declare run_from.simps [code]

definition run ::
  "('v, 'e, 'w) program \<Rightarrow> ('v, 'e, 'w) state \<Rightarrow> ('e settlement \<times> ('v, 'e, 'w) state) option" where
  "run env s = run_from env 0 s"

text \<open>
  The drain as the specification words it, for comparison with \<open>run\<close>: the tasks of a
  given sequence, one after the other in the order of the sequence, each one's
  \<^verbatim>\<open>run()\<close> complete before the next starts, ending at the first one that does not
  succeed. It is a recursion over a fixed list, not a loop over the live array.
\<close>

fun sequential_drain ::
  "('v, 'e, 'w) program \<Rightarrow> 'v BackgroundTask list \<Rightarrow> ('v, 'e, 'w) state
     \<Rightarrow> 'e settlement \<times> ('v, 'e, 'w) state" where
  "sequential_drain env [] s = (Fulfilled, s)"
| "sequential_drain env (t # ts) s =
     (case BackgroundTask_run env t s of
        (Fulfilled, s') \<Rightarrow> sequential_drain env ts s'
      | (Rejected e, s') \<Rightarrow> (Rejected e, s')
      | (Pending, s') \<Rightarrow> (Pending, s'))"

section \<open>The plugin's hook\<close>

text \<open>
  \<^verbatim>\<open>type BackgroundOptions = { onError?: (error: unknown) => void | Promise<void> }\<close>

  A call of the handler changes the rest of the program's state and either returns
  (\<open>None\<close>; a promise it returns is dropped by the hook) or throws (\<open>Some x\<close>).
\<close>

type_synonym ('e, 'w) error_handler = "'e thrown \<Rightarrow> 'w \<Rightarrow> 'w \<times> 'e thrown option"

record ('e, 'w) BackgroundOptions =
  onError :: "('e, 'w) error_handler option"

text \<open>
  The callback given to \<^verbatim>\<open>.catch\<close>:
  \<^verbatim>\<open>(error) => { if (options?.onError) { options.onError(error); }
  else { console.error('[elysia-background] Task failed:', error); } }\<close>

  Its result is how the promise returned by \<^verbatim>\<open>.catch\<close> settles.
\<close>

definition catch_callback ::
  "('e, 'w) BackgroundOptions option \<Rightarrow> 'e thrown \<Rightarrow> ('v, 'e, 'w) state
     \<Rightarrow> 'e settlement \<times> ('v, 'e, 'w) state" where
  "catch_callback options error s =
     (case (case options of None \<Rightarrow> None | Some opts \<Rightarrow> onError opts) of
        Some handler \<Rightarrow>
          (case handler error (world s) of
             (w, None) \<Rightarrow> (Fulfilled, s\<lparr>world := w\<rparr>)
           | (w, Some x) \<Rightarrow> (Rejected x, s\<lparr>world := w\<rparr>))
      | None \<Rightarrow>
          (Fulfilled,
           s\<lparr>console_error := console_error s @ [(''[elysia-background] Task failed:'', error)]\<rparr>))"

text \<open>
  \<^verbatim>\<open>.onAfterResponse(({ backgroundTasks }) => { backgroundTasks.run().catch(...); })\<close>

  The hook's own call returns at once and throws nothing (\<open>thrown_to_caller\<close> is what its
  caller receives); the promise chain it leaves behind is \<open>detached\<close>: \<open>None\<close> when the
  drain runs for ever, otherwise how the chain settles and the state it leaves.
\<close>

record ('v, 'e, 'w) hook_result =
  thrown_to_caller :: "'e thrown option"
  detached :: "('e settlement \<times> ('v, 'e, 'w) state) option"

definition onAfterResponse ::
  "('v, 'e, 'w) program \<Rightarrow> ('e, 'w) BackgroundOptions option \<Rightarrow> ('v, 'e, 'w) state
     \<Rightarrow> ('v, 'e, 'w) hook_result" where
  "onAfterResponse env options s =
     \<lparr>thrown_to_caller = None,
      detached =
        (case run env s of
           None \<Rightarrow> None
         | Some (Rejected error, s') \<Rightarrow> Some (catch_callback options error s')
         | Some (Fulfilled, s') \<Rightarrow> Some (Fulfilled, s')
         | Some (Pending, s') \<Rightarrow> Some (Pending, s'))\<rparr>"

section \<open>Example programs\<close>

text \<open>
  Functions after those of the repository's tests, with a counter as the rest of the
  program's state: \<open>increment\<close> adds its arguments to the counter (the tests' one takes a
  single argument); \<open>fail_first\<close> adds one and
  throws when the counter is then 1; \<open>spawner\<close> enqueues \<open>increment 10\<close>;
  \<open>respawner\<close> enqueues itself; \<open>sync_increment\<close> has the body of \<open>increment\<close> but
  is not declared \<^verbatim>\<open>async\<close>.
\<close>

definition increment :: fn where
  "increment = \<lparr>constructor_name = ''AsyncFunction'', body = 0\<rparr>"

definition fail_first :: fn where
  "fail_first = \<lparr>constructor_name = ''AsyncFunction'', body = 1\<rparr>"

definition spawner :: fn where
  "spawner = \<lparr>constructor_name = ''AsyncFunction'', body = 2\<rparr>"

definition respawner :: fn where
  "respawner = \<lparr>constructor_name = ''AsyncFunction'', body = 3\<rparr>"

definition sync_increment :: fn where
  "sync_increment = \<lparr>constructor_name = ''Function'', body = 0\<rparr>"

definition test_program :: "(nat, unit, nat) program" where
  "test_program b as w =
     (if b = 0 then \<lparr>world_after = w + sum_list as, added = [], settles = Fulfilled\<rparr>
      else if b = 1 then
        \<lparr>world_after = w + 1, added = [],
         settles = (if w + 1 = 1 then Rejected (Error ''task failed'') else Fulfilled)\<rparr>
      else if b = 2 then \<lparr>world_after = w, added = [(increment, [10])], settles = Fulfilled\<rparr>
      else \<lparr>world_after = w, added = [(respawner, [])], settles = Fulfilled\<rparr>)"

definition empty_queue :: "(nat, unit, nat) state" where
  "empty_queue = \<lparr>tasks = [], world = 0, console_error = []\<rparr>"

definition three_increments :: "(nat, unit, nat) state" where
  "three_increments =
     addTask increment [3] (addTask increment [2] (addTask increment [1] empty_queue))"

text \<open>
  The queue of the test \<^verbatim>\<open>should stop execution when task fails\<close>, and two queues
  whose first task enqueues another one during the drain.
\<close>

definition two_fail_first :: "(nat, unit, nat) state" where
  "two_fail_first = addTask fail_first [] (addTask fail_first [] empty_queue)"


definition spawn_then_increment :: "(nat, unit, nat) state" where
  "spawn_then_increment = addTask increment [5] (addTask spawner [] empty_queue)"

text \<open>A queue whose only task enqueues itself.\<close>

definition respawning :: "(nat, unit, nat) state" where
  "respawning = addTask respawner [] empty_queue"

text \<open>An error handler that counts its calls in the program's state.\<close>

definition counting_handler :: "(unit, nat) error_handler" where
  "counting_handler error w = (Suc w, None)"

section \<open>What the operations do to the queue\<close>

text \<open>
  Enqueuing touches the array only, and only at its end; so a task's \<^verbatim>\<open>run()\<close>
  leaves every task the array held in place.
\<close>

lemma world_addTasks: "world (addTasks cs s) = world s"
  by (induction cs s rule: addTasks.induct) (simp_all add: addTask_def)

lemma console_error_addTasks: "console_error (addTasks cs s) = console_error s"
  by (induction cs s rule: addTasks.induct) (simp_all add: addTask_def)

lemma tasks_addTasks:
  "tasks (addTasks cs s) = tasks s @ map (\<lambda>(f, as). BackgroundTask_new f as) cs"
  by (induction cs s rule: addTasks.induct) (simp_all add: addTask_def)

lemma BackgroundTask_run_prefix:
  assumes "BackgroundTask_run env t s = (c, s')"
  shows "prefix (tasks s) (tasks s')"
  using assms by (auto simp: BackgroundTask_run_def Let_def tasks_addTasks split: if_splits)

lemma BackgroundTask_run_console:
  assumes "BackgroundTask_run env t s = (c, s')"
  shows "console_error s' = console_error s"
  using assms by (auto simp: BackgroundTask_run_def Let_def console_error_addTasks split: if_splits)

section \<open>The loop over the live array and the drain in order\<close>

text \<open>
  While the loop stands before tasks that are in the array, it does what
  \<open>sequential_drain\<close> does on them: tasks enqueued meanwhile go behind them.
\<close>

lemma drop_Suc_grown:
  assumes "drop i xs = t # ts @ rest" and "prefix xs ys"
  shows "\<exists>rest'. drop (Suc i) ys = ts @ rest'"
proof -
  from assms(2) obtain new where ys: "ys = xs @ new" by (auto simp: prefix_def)
  from assms(1) have "i < length xs" by (cases "i < length xs") auto
  moreover from assms(1) have "drop (Suc i) xs = ts @ rest"
    by (metis drop_Suc tl_drop list.sel(3))
  ultimately show ?thesis using ys by simp
qed

lemma run_from_segment:
  assumes "drop i (tasks s) = ts @ rest"
  shows "run_from env i s =
           (case sequential_drain env ts s of
              (Fulfilled, s') \<Rightarrow> run_from env (i + length ts) s'
            | (Rejected e, s') \<Rightarrow> Some (Rejected e, s')
            | (Pending, s') \<Rightarrow> Some (Pending, s'))"
  using assms
proof (induction ts arbitrary: i s rest)
  case Nil
  show ?case by simp
next
  case (Cons t ts)
  from Cons.prems have lt: "i < length (tasks s)"
    by (cases "i < length (tasks s)") auto
  from Cons.prems lt have nth: "tasks s ! i = t"
    by (metis Cons_nth_drop_Suc append_Cons list.inject)
  obtain c s1 where step: "BackgroundTask_run env t s = (c, s1)"
    by (cases "BackgroundTask_run env t s")
  show ?case
  proof (cases c)
    case Fulfilled
    from Cons.prems BackgroundTask_run_prefix [OF step]
    obtain rest' where "drop (Suc i) (tasks s1) = ts @ rest'"
      using drop_Suc_grown by (metis append_Cons)
    from Cons.IH [OF this] show ?thesis
      using lt nth step Fulfilled
      by (subst run_from.simps) (simp split: prod.splits settlement.splits)
  next
    case (Rejected e)
    then show ?thesis using lt nth step by (subst run_from.simps) simp
  next
    case Pending
    then show ?thesis using lt nth step by (subst run_from.simps) simp
  qed
qed

lemma run_from_at_end: "length (tasks s) \<le> i \<Longrightarrow> run_from env i s = Some (Fulfilled, s)"
  by (subst run_from.simps) simp

text \<open>
  What holds of every drain that comes to an end, by the induction rule of the loop: the
  array has only grown, the console is untouched.
\<close>

lemma run_from_prefix:
  assumes "run_from env i s = Some y"
  shows "prefix (tasks s) (tasks (snd y))"
  using assms
proof (induction env i s y rule: run_from.raw_induct [rotated, consumes 1, case_names iter])
  case (iter f env i s y)
  show ?case
  proof (cases "i < length (tasks s)")
    case False
    with iter(2) show ?thesis by auto
  next
    case True
    obtain c s1 where step: "BackgroundTask_run env (tasks s ! i) s = (c, s1)"
      by (cases "BackgroundTask_run env (tasks s ! i) s")
    note grow = BackgroundTask_run_prefix [OF step]
    show ?thesis
    proof (cases c)
      case Fulfilled
      with iter(2) True step have "f env (Suc i) s1 = Some y" by simp
      from iter(1) [OF this] grow show ?thesis by (rule prefix_order.trans [rotated])
    next
      case (Rejected e)
      with iter(2) True step grow show ?thesis by auto
    next
      case Pending
      with iter(2) True step grow show ?thesis by auto
    qed
  qed
qed

lemma run_from_console:
  assumes "run_from env i s = Some y"
  shows "console_error (snd y) = console_error s"
  using assms
proof (induction env i s y rule: run_from.raw_induct [rotated, consumes 1, case_names iter])
  case (iter f env i s y)
  show ?case
  proof (cases "i < length (tasks s)")
    case False
    with iter(2) show ?thesis by auto
  next
    case True
    obtain c s1 where step: "BackgroundTask_run env (tasks s ! i) s = (c, s1)"
      by (cases "BackgroundTask_run env (tasks s ! i) s")
    note same = BackgroundTask_run_console [OF step]
    show ?thesis
    proof (cases c)
      case Fulfilled
      with iter(2) True step have "f env (Suc i) s1 = Some y" by simp
      from iter(1) [OF this] same show ?thesis by simp
    next
      case (Rejected e)
      with iter(2) True step same show ?thesis by auto
    next
      case Pending
      with iter(2) True step same show ?thesis by auto
    qed
  qed
qed

text \<open>
  The drain in order, piece by piece; and what it does to the program's state does not
  depend on the array it is given alongside.
\<close>

lemma sequential_drain_append:
  "sequential_drain env (xs @ ys) s =
     (case sequential_drain env xs s of
        (Fulfilled, s') \<Rightarrow> sequential_drain env ys s'
      | (Rejected e, s') \<Rightarrow> (Rejected e, s')
      | (Pending, s') \<Rightarrow> (Pending, s'))"
  by (induction xs arbitrary: s) (simp_all split: prod.splits settlement.splits)

lemma BackgroundTask_run_queue_independent:
  assumes "world s = world r"
  shows "fst (BackgroundTask_run env t s) = fst (BackgroundTask_run env t r)
         \<and> world (snd (BackgroundTask_run env t s)) = world (snd (BackgroundTask_run env t r))"
  using assms by (simp add: BackgroundTask_run_def Let_def world_addTasks)

lemma sequential_drain_queue_independent:
  assumes "world s = world r"
  shows "fst (sequential_drain env ts s) = fst (sequential_drain env ts r)
         \<and> world (snd (sequential_drain env ts s)) = world (snd (sequential_drain env ts r))"
  using assms
proof (induction ts arbitrary: s r)
  case Nil
  then show ?case by simp
next
  case (Cons t ts)
  obtain c s1 where s1: "BackgroundTask_run env t s = (c, s1)"
    by (cases "BackgroundTask_run env t s")
  obtain r1 where r1: "BackgroundTask_run env t r = (c, r1)" and w: "world s1 = world r1"
    using BackgroundTask_run_queue_independent [OF Cons.prems, of env t] s1
    by (cases "BackgroundTask_run env t r") auto
  from Cons.IH [OF w] s1 r1 w show ?case
    by (cases c) simp_all
qed

lemma run_prefix:
  assumes "run env s = Some (c, s')"
  shows "prefix (tasks s) (tasks s')"
  using run_from_prefix [of env 0 s "(c, s')"] assms by (simp add: run_def)

lemma prefix_nth_same:
  assumes "prefix xs ys" and "i < length xs"
  shows "ys ! i = xs ! i"
  using assms by (auto simp: prefix_def nth_append)

lemma run_segment:
  assumes "tasks s = ts @ rest"
  shows "run env s =
           (case sequential_drain env ts s of
              (Fulfilled, s') \<Rightarrow> run_from env (length ts) s'
            | (Rejected e, s') \<Rightarrow> Some (Rejected e, s')
            | (Pending, s') \<Rightarrow> Some (Pending, s'))"
  using run_from_segment [of 0 s ts rest env] assms
  by (simp add: run_def split: prod.splits settlement.splits)

lemma sequential_drain_all_fulfil:
  assumes "\<forall>t\<in>set ts. isAsync t \<and>
             (\<forall>w. settles (env (body (func t)) (args t) w) = Fulfilled
                  \<and> added (env (body (func t)) (args t) w) = [])"
  shows "sequential_drain env ts s =
           (Fulfilled,
            s\<lparr>world := foldl (\<lambda>w t. world_after (env (body (func t)) (args t) w)) (world s) ts\<rparr>)"
  using assms
proof (induction ts arbitrary: s)
  case Nil
  show ?case by simp
next
  case (Cons t ts)
  from Cons.prems have t: "isAsync t"
    "settles (env (body (func t)) (args t) (world s)) = Fulfilled"
    "added (env (body (func t)) (args t) (world s)) = []"
    by simp_all
  from t have "BackgroundTask_run env t s =
      (Fulfilled, s\<lparr>world := world_after (env (body (func t)) (args t) (world s))\<rparr>)"
    by (simp add: BackgroundTask_run_def)
  moreover from Cons.prems have "\<forall>t\<in>set ts. isAsync t \<and>
             (\<forall>w. settles (env (body (func t)) (args t) w) = Fulfilled
                  \<and> added (env (body (func t)) (args t) w) = [])"
    by simp
  ultimately show ?case
    using Cons.IH [of "s\<lparr>world := world_after (env (body (func t)) (args t) (world s))\<rparr>"]
    by simp
qed

lemma drop_grown_Cons:
  assumes "prefix xs ys" and "i < length xs"
  shows "drop i ys = xs ! i # drop (Suc i) ys"
proof -
  from assms have "i < length ys" and "ys ! i = xs ! i"
    by (auto simp: prefix_def nth_append)
  then show ?thesis by (metis Cons_nth_drop_Suc)
qed

lemma run_from_settles_as_sequential_drain:
  assumes "run_from env i s = Some y"
  shows "prefix (tasks s) (tasks (snd y))
         \<and> sequential_drain env (drop i (tasks (snd y))) s = y"
  using assms
proof (induction env i s y rule: run_from.raw_induct [rotated, consumes 1, case_names iter])
  case (iter f env i s y)
  show ?case
  proof (cases "i < length (tasks s)")
    case False
    with iter(2) show ?thesis by auto
  next
    case True
    obtain c s1 where step: "BackgroundTask_run env (tasks s ! i) s = (c, s1)"
      by (cases "BackgroundTask_run env (tasks s ! i) s")
    note grow = BackgroundTask_run_prefix [OF step]
    show ?thesis
    proof (cases c)
      case Fulfilled
      with iter(2) True step have "f env (Suc i) s1 = Some y" by simp
      from iter(1) [OF this]
      have later: "prefix (tasks s1) (tasks (snd y))"
        and rest: "sequential_drain env (drop (Suc i) (tasks (snd y))) s1 = y"
        by simp_all
      from grow later have whole: "prefix (tasks s) (tasks (snd y))"
        by (rule prefix_order.trans)
      from drop_grown_Cons [OF whole True] step Fulfilled rest whole
      show ?thesis by simp
    next
      case (Rejected e)
      with iter(2) True step have y: "y = (Rejected e, s1)" by simp
      with drop_grown_Cons [OF grow True] step Rejected grow
      show ?thesis by simp
    next
      case Pending
      with iter(2) True step have y: "y = (Pending, s1)" by simp
      with drop_grown_Cons [OF grow True] step Pending grow
      show ?thesis by simp
    qed
  qed
qed

lemma run_settles_as_sequential_drain:
  assumes "run env s = Some (c, s')"
  shows "sequential_drain env (tasks s') s = (c, s')"
  using run_from_settles_as_sequential_drain [of env 0 s "(c, s')"] assms
  by (simp add: run_def)

lemma run_from_stops_at_rejection:
  assumes "drop i (tasks s) = pre @ t # post"
    and "sequential_drain env pre s = (Fulfilled, s1)"
    and "BackgroundTask_run env t s1 = (Rejected e, s2)"
  shows "run_from env i s = Some (Rejected e, s2)"
proof -
  from assms(2,3) have "sequential_drain env (pre @ [t]) s = (Rejected e, s2)"
    by (simp add: sequential_drain_append)
  moreover from assms(1) have "drop i (tasks s) = (pre @ [t]) @ post" by simp
  ultimately show ?thesis
    using run_from_segment [of i s "pre @ [t]" post env] by simp
qed

text \<open>
  The other direction: when the tasks of a list all succeed one after the other, each is in
  the array by the time the loop comes to its position, and the list is the array as it
  stands at the end, the loop runs exactly them and is fulfilled.
\<close>

lemma sequential_drain_prefix:
  assumes "sequential_drain env xs s = (c, s')"
  shows "prefix (tasks s) (tasks s')"
  using assms
proof (induction xs arbitrary: s)
  case Nil
  then show ?case by simp
next
  case (Cons t xs)
  obtain d s1 where one: "BackgroundTask_run env t s = (d, s1)"
    by (cases "BackgroundTask_run env t s")
  note grow = BackgroundTask_run_prefix [OF one]
  show ?case
  proof (cases d)
    case Fulfilled
    with Cons.prems one have "sequential_drain env xs s1 = (c, s')" by simp
    from grow Cons.IH [OF this] show ?thesis by (rule prefix_order.trans)
  next
    case (Rejected e)
    with Cons.prems one grow show ?thesis by auto
  next
    case Pending
    with Cons.prems one grow show ?thesis by auto
  qed
qed

lemma run_from_all_succeed:
  assumes "sequential_drain env rest s = (Fulfilled, s')"
    and "drop i (tasks s') = rest"
    and "\<forall>k<length rest. i + k < length (tasks (snd (sequential_drain env (take k rest) s)))"
  shows "run_from env i s = Some (Fulfilled, s')"
  using assms
proof (induction rest arbitrary: i s)
  case Nil
  then have "s' = s" and "length (tasks s) \<le> i" by simp_all
  then show ?case by (simp add: run_from_at_end)
next
  case (Cons t rest)
  from Cons.prems(3) have here: "i < length (tasks s)" by fastforce
  from Cons.prems(2) have "i < length (tasks s')" and "tasks s' ! i = t"
    by (metis drop_eq_Nil2 list.distinct(1) not_le, metis nth_via_drop)
  with prefix_nth_same [OF sequential_drain_prefix [OF Cons.prems(1)] here]
  have nth: "tasks s ! i = t" by simp
  obtain d s1 where one: "BackgroundTask_run env t s = (d, s1)"
    by (cases "BackgroundTask_run env t s")
  from Cons.prems(1) one have d: "d = Fulfilled"
    and rest: "sequential_drain env rest s1 = (Fulfilled, s')"
    by (cases d; simp)+
  from Cons.prems(2) have later: "drop (Suc i) (tasks s') = rest"
    by (metis drop_Suc list.sel(3) tl_drop)
  have present: "\<forall>k<length rest. Suc i + k < length (tasks (snd (sequential_drain env (take k rest) s1)))"
  proof (intro allI impI)
    fix k assume "k < length rest"
    then have "Suc k < length (t # rest)" by simp
    with Cons.prems(3)
    have "i + Suc k < length (tasks (snd (sequential_drain env (take (Suc k) (t # rest)) s)))"
      by blast
    with one d show "Suc i + k < length (tasks (snd (sequential_drain env (take k rest) s1)))"
      by simp
  qed
  from Cons.IH [OF rest later present] here nth one d show ?case
    by (subst run_from.simps) simp
qed

lemma run_all_succeed:
  assumes "sequential_drain env ts s = (Fulfilled, s')"
    and "tasks s' = ts"
    and "\<forall>k<length ts. k < length (tasks (snd (sequential_drain env (take k ts) s)))"
  shows "run env s = Some (Fulfilled, s')"
  using run_from_all_succeed [of env ts s s' 0] assms by (simp add: run_def)

text \<open>
  A drain over the live array need not end: with a task that enqueues itself there is always
  one more task to run.
\<close>

lemma respawner_run:
  "BackgroundTask_run test_program (BackgroundTask_new respawner []) s
     = (Fulfilled, s\<lparr>tasks := tasks s @ [BackgroundTask_new respawner []]\<rparr>)"
  by (simp add: BackgroundTask_run_def BackgroundTask_new_def isAsyncFunction_def respawner_def
      test_program_def addTask_def)

lemma respawner_drain_goes_on:
  assumes "run_from env i s = Some y"
  shows "env = test_program \<Longrightarrow> i < length (tasks s)
           \<Longrightarrow> set (tasks s) \<subseteq> {BackgroundTask_new respawner []} \<Longrightarrow> False"
  using assms
proof (induction env i s y rule: run_from.raw_induct [rotated, consumes 1, case_names iter])
  case (iter f env i s y)
  let ?s1 = "s\<lparr>tasks := tasks s @ [BackgroundTask_new respawner []]\<rparr>"
  from iter.prems(2,3) have "tasks s ! i = BackgroundTask_new respawner []"
    using nth_mem by blast
  with iter(2) iter.prems(1,2) have "f env (Suc i) ?s1 = Some y"
    by (simp add: respawner_run)
  from iter(1) [OF this iter.prems(1)] iter.prems(2,3) show False
    by simp
qed

text \<open>The hook adds nothing to the array.\<close>

lemma tasks_catch_callback: "tasks (snd (catch_callback options e s)) = tasks s"
  by (simp add: catch_callback_def split: option.splits prod.splits)

lemma onAfterResponse_prefix:
  assumes "detached (onAfterResponse env options s) = Some (c, s')"
  shows "prefix (tasks s) (tasks s')"
proof (cases "run env s")
  case None
  with assms show ?thesis by (simp add: onAfterResponse_def)
next
  case (Some y)
  obtain d s1 where y: "y = (d, s1)" by (cases y)
  from Some y have grown: "prefix (tasks s) (tasks s1)" by (simp add: run_prefix)
  show ?thesis
  proof (cases d)
    case Fulfilled
    with assms Some y grown show ?thesis by (simp add: onAfterResponse_def)
  next
    case (Rejected e)
    with assms Some y have "catch_callback options e s1 = (c, s')"
      by (simp add: onAfterResponse_def)
    with tasks_catch_callback [of options e s1] grown show ?thesis by simp
  next
    case Pending
    with assms Some y grown show ?thesis by (simp add: onAfterResponse_def)
  qed
qed

section \<open>Enqueuing\<close>

text \<open>
  Claim C6. For every queue, function and argument list, \<^verbatim>\<open>addTask\<close> builds the task
  from them and puts it at the end of the array: the array is one longer, the tasks it held
  are where they were, and nothing else of the state changes. \<open>addTask\<close> is a total
  function with no error result and no call of a function body in it: it cannot fail or
  suspend.
\<close>

theorem addTask_appends_one_task:
  "addTask f as s = s\<lparr>tasks := tasks s @ [\<lparr>func = f, args = as, isAsync = isAsyncFunction f\<rparr>]\<rparr>
   \<and> length (tasks (addTask f as s)) = Suc (length (tasks s))
   \<and> take (length (tasks s)) (tasks (addTask f as s)) = tasks s
   \<and> last (tasks (addTask f as s)) = BackgroundTask_new f as
   \<and> world (addTask f as s) = world s
   \<and> console_error (addTask f as s) = console_error s"
  by (simp add: addTask_def BackgroundTask_new_def)

section \<open>Running one task\<close>

text \<open>
  Claim C3. A task whose \<^verbatim>\<open>isAsync\<close> flag is false is rejected by
  \<^verbatim>\<open>run()\<close> with the error for synchronous functions, and the state is left as it
  was: the function is not called, so the result is the same whatever its body is. Enqueued
  alone and drained, such a function makes the drain fail with that error.
\<close>

theorem sync_task_rejected_without_call:
  assumes "\<not> isAsync t"
  shows "BackgroundTask_run env t s =
           (Rejected (Error ''Background task does not support synchronous functions. Please use async functions.''), s)
         \<and> BackgroundTask_run env t s = BackgroundTask_run env' t s
         \<and> (tasks s = [] \<and> t = BackgroundTask_new f as \<longrightarrow>
              run env (addTask f as s) = Some (Rejected sync_not_supported, addTask f as s))"
proof -
  have one: "BackgroundTask_run env t s = (Rejected sync_not_supported, s)" for env :: "('a, 'b, 'c) program"
    using assms by (simp add: BackgroundTask_run_def)
  have "run env (addTask f as s) = Some (Rejected sync_not_supported, addTask f as s)"
    if "tasks s = []" and "t = BackgroundTask_new f as"
    using that assms
    by (simp add: run_def run_from.simps addTask_def BackgroundTask_run_def)
  with one [of env] one [of env'] show ?thesis
    by (simp add: sync_not_supported_def)
qed

theorem sync_task_rejected_without_call_witness:
  "\<not> isAsync (BackgroundTask_new sync_increment [5 :: nat])
   \<and> BackgroundTask_run test_program (BackgroundTask_new sync_increment [5]) empty_queue =
       (Rejected (Error ''Background task does not support synchronous functions. Please use async functions.''),
        empty_queue)
   \<and> run test_program (addTask sync_increment [5] empty_queue) =
       Some (Rejected sync_not_supported, \<lparr>tasks = [BackgroundTask_new sync_increment [5]], world = 0, console_error = []\<rparr>)"
proof -
  have sync: "\<not> isAsync (BackgroundTask_new sync_increment [5 :: nat])"
    by (simp add: BackgroundTask_new_def isAsyncFunction_def sync_increment_def)
  have empty: "tasks empty_queue = []"
    by (simp add: empty_queue_def)
  from sync_task_rejected_without_call
    [OF sync, of test_program empty_queue test_program sync_increment "[5]"] sync empty
  show ?thesis
    by (simp add: addTask_def empty_queue_def)
qed

text \<open>
  Claim C5. A task built from an \<^verbatim>\<open>async\<close> function calls the function's body
  with exactly the arguments given at construction, and its \<^verbatim>\<open>run()\<close> settles as
  that call settles: fulfilled when the call is, rejected with the very value the call was
  rejected with, pending while the call is pending.
\<close>

theorem async_task_awaits_callable:
  assumes "isAsyncFunction f"
  shows "BackgroundTask_run env (BackgroundTask_new f as) s =
           (settles (env (body f) as (world s)),
            addTasks (added (env (body f) as (world s)))
              (s\<lparr>world := world_after (env (body f) as (world s))\<rparr>))
         \<and> (settles (env (body f) as (world s)) = Fulfilled \<longrightarrow>
              fst (BackgroundTask_run env (BackgroundTask_new f as) s) = Fulfilled)
         \<and> (\<forall>e. settles (env (body f) as (world s)) = Rejected e \<longrightarrow>
              fst (BackgroundTask_run env (BackgroundTask_new f as) s) = Rejected e)
         \<and> (settles (env (body f) as (world s)) = Pending \<longrightarrow>
              fst (BackgroundTask_run env (BackgroundTask_new f as) s) = Pending)
         \<and> world (snd (BackgroundTask_run env (BackgroundTask_new f as) s)) =
              world_after (env (body f) as (world s))"
  using assms
  by (simp add: BackgroundTask_run_def BackgroundTask_new_def Let_def world_addTasks)

theorem async_task_awaits_callable_witness:
  "isAsyncFunction increment
   \<and> BackgroundTask_run test_program (BackgroundTask_new increment [2, 3]) empty_queue =
       (Fulfilled, \<lparr>tasks = [], world = 5, console_error = []\<rparr>)
   \<and> isAsyncFunction fail_first
   \<and> BackgroundTask_run test_program (BackgroundTask_new fail_first []) empty_queue =
       (Rejected (Error ''task failed''), \<lparr>tasks = [], world = 1, console_error = []\<rparr>)"
proof -
  have a: "isAsyncFunction increment" and b: "isAsyncFunction fail_first"
    by (simp_all add: isAsyncFunction_def increment_def fail_first_def)
  from async_task_awaits_callable [OF a, of test_program "[2, 3]" empty_queue]
    async_task_awaits_callable [OF b, of test_program "[]" empty_queue] a b
  show ?thesis
    by (simp add: test_program_def increment_def fail_first_def empty_queue_def)
qed

text \<open>
  Claim C7. The flag of a task is set by the constructor, from the name of the function's
  constructor, and the arguments are the ones given to the constructor. \<^verbatim>\<open>run()\<close>
  reads the stored flag and does not classify the function again (a function whose
  constructor name is changed afterwards runs as before), and no operation changes a task that
  is in the array: after \<^verbatim>\<open>addTask\<close>, after a task's \<^verbatim>\<open>run()\<close>, after
  a drain and after the hook, every position the array had holds the same task, with the
  same flag and arguments.
\<close>

theorem isAsync_and_args_fixed_at_construction:
  "isAsync (BackgroundTask_new f as) = (constructor_name f = ''AsyncFunction'')
   \<and> args (BackgroundTask_new f as) = as
   \<and> func (BackgroundTask_new f as) = f
   \<and> BackgroundTask_run env (t\<lparr>func := (func t)\<lparr>constructor_name := n\<rparr>\<rparr>) s = BackgroundTask_run env t s
   \<and> (\<forall>i < length (tasks s).
         tasks (addTask g bs s) ! i = tasks s ! i
         \<and> tasks (snd (BackgroundTask_run env t s)) ! i = tasks s ! i
         \<and> (\<forall>c s'. run env s = Some (c, s') \<longrightarrow> tasks s' ! i = tasks s ! i)
         \<and> (\<forall>c s'. detached (onAfterResponse env options s) = Some (c, s') \<longrightarrow>
                tasks s' ! i = tasks s ! i))"
proof -
  have new: "isAsync (BackgroundTask_new f as) = (constructor_name f = ''AsyncFunction'')"
    "args (BackgroundTask_new f as) = as" "func (BackgroundTask_new f as) = f"
    by (simp_all add: BackgroundTask_new_def isAsyncFunction_def)
  have flag: "BackgroundTask_run env (t\<lparr>func := (func t)\<lparr>constructor_name := n\<rparr>\<rparr>) s
                = BackgroundTask_run env t s"
    by (simp add: BackgroundTask_run_def)
  have kept: "tasks (addTask g bs s) ! i = tasks s ! i
              \<and> tasks (snd (BackgroundTask_run env t s)) ! i = tasks s ! i
              \<and> (\<forall>c s'. run env s = Some (c, s') \<longrightarrow> tasks s' ! i = tasks s ! i)
              \<and> (\<forall>c s'. detached (onAfterResponse env options s) = Some (c, s') \<longrightarrow>
                     tasks s' ! i = tasks s ! i)"
    if i: "i < length (tasks s)" for i
  proof -
    have "prefix (tasks s) (tasks (addTask g bs s))"
      by (simp add: addTask_def)
    moreover have "prefix (tasks s) (tasks (snd (BackgroundTask_run env t s)))"
      by (rule BackgroundTask_run_prefix [of env t s "fst (BackgroundTask_run env t s)"]) simp
    ultimately show ?thesis
      using i prefix_nth_same run_prefix onAfterResponse_prefix by blast
  qed
  from new flag kept show ?thesis by blast
qed

theorem isAsync_and_args_fixed_at_construction_witness:
  "0 < length (tasks three_increments)
   \<and> tasks (addTask spawner [] three_increments) ! 0 = tasks three_increments ! 0
   \<and> tasks (snd (BackgroundTask_run test_program (BackgroundTask_new spawner []) three_increments)) ! 0
       = tasks three_increments ! 0
   \<and> run test_program three_increments = Some (Fulfilled, three_increments\<lparr>world := 6\<rparr>)
   \<and> tasks (three_increments\<lparr>world := 6\<rparr>) ! 0 = tasks three_increments ! 0
   \<and> tasks three_increments ! 0 = \<lparr>func = increment, args = [1], isAsync = True\<rparr>"
proof -
  have pos: "0 < length (tasks three_increments)"
    and first: "tasks three_increments ! 0 = \<lparr>func = increment, args = [1], isAsync = True\<rparr>"
    by (simp_all add: three_increments_def addTask_def empty_queue_def BackgroundTask_new_def
        isAsyncFunction_def increment_def)
  have drained: "run test_program three_increments = Some (Fulfilled, three_increments\<lparr>world := 6\<rparr>)"
    by (simp add: run_def run_from.simps three_increments_def addTask_def empty_queue_def
        BackgroundTask_run_def BackgroundTask_new_def isAsyncFunction_def increment_def
        test_program_def)
  from isAsync_and_args_fixed_at_construction
    [where s = three_increments and env = test_program and g = spawner and bs = "[]"
       and t = "BackgroundTask_new spawner []"] pos first drained
  show ?thesis by blast
qed

section \<open>Draining the queue\<close>

text \<open>
  Claim C1 says that, for every queue, the drain resolves when every task succeeds. It does
  not for a queue whose task enqueues itself: every task that runs is fulfilled, there is
  always one more in the array, and the drain never settles.
\<close>

theorem self_enqueuing_drain_never_resolves_counterexample:
  "tasks respawning = [BackgroundTask_new respawner []]
   \<and> BackgroundTask_run test_program (BackgroundTask_new respawner []) respawning =
       (Fulfilled,
        \<lparr>tasks = [BackgroundTask_new respawner [], BackgroundTask_new respawner []],
         world = 0, console_error = []\<rparr>)
   \<and> run test_program respawning = None"
proof -
  have one: "tasks respawning = [BackgroundTask_new respawner []]"
    by (simp add: respawning_def addTask_def empty_queue_def)
  have "run_from test_program 0 respawning \<noteq> Some y" for y
    using respawner_drain_goes_on [of test_program 0 respawning y] one by auto
  then have "run test_program respawning = None"
    by (cases "run test_program respawning") (simp_all add: run_def)
  with one show ?thesis
    by (simp add: respawner_run) (simp add: respawning_def addTask_def empty_queue_def)
qed

text \<open>
  Claim C1, amended. For every queue, \<open>run\<close> runs the tasks of the queue one after the
  other in the order of insertion, each to its end before the next starts, as
  \<open>sequential_drain\<close> does on the queue's tasks, and goes on from the state they leave.
  When the queue comes to an end with every task having succeeded, tasks enqueued during the
  drain included (the tasks \<open>ts\<close> of the array as it stands at the end succeed one after
  the other, each being in the array when its turn comes), the drain is fulfilled, with no
  value; in particular, when no task fails or enqueues whatever the state,
  the final state is the effects of the tasks composed in the order of insertion. A drain of
  the empty queue is fulfilled at once and leaves the state as it was. And a drain that has
  settled has run the tasks of the array as it then stands in exactly that way.
\<close>

theorem run_drains_in_insertion_order:
  "run env s =
     (case sequential_drain env (tasks s) s of
        (Fulfilled, s') \<Rightarrow> run_from env (length (tasks s)) s'
      | (Rejected e, s') \<Rightarrow> Some (Rejected e, s')
      | (Pending, s') \<Rightarrow> Some (Pending, s'))
   \<and> (\<forall>ts s'. sequential_drain env ts s = (Fulfilled, s') \<and> tasks s' = ts
          \<and> (\<forall>k<length ts. k < length (tasks (snd (sequential_drain env (take k ts) s)))) \<longrightarrow>
          run env s = Some (Fulfilled, s'))
   \<and> ((\<forall>t\<in>set (tasks s). isAsync t \<and>
          (\<forall>w. settles (env (body (func t)) (args t) w) = Fulfilled
               \<and> added (env (body (func t)) (args t) w) = [])) \<longrightarrow>
        run env s =
          Some (Fulfilled,
                s\<lparr>world := foldl (\<lambda>w t. world_after (env (body (func t)) (args t) w))
                                 (world s) (tasks s)\<rparr>))
   \<and> (tasks s = [] \<longrightarrow> run env s = Some (Fulfilled, s))
   \<and> (\<forall>c s'. run env s = Some (c, s') \<longrightarrow> sequential_drain env (tasks s') s = (c, s'))"
proof -
  have order: "run env s =
     (case sequential_drain env (tasks s) s of
        (Fulfilled, s') \<Rightarrow> run_from env (length (tasks s)) s'
      | (Rejected e, s') \<Rightarrow> Some (Rejected e, s')
      | (Pending, s') \<Rightarrow> Some (Pending, s'))"
    by (rule run_segment [of s "tasks s" "[]"]) simp
  have success: "run env s = Some (Fulfilled, s')"
    if "sequential_drain env ts s = (Fulfilled, s')" and "tasks s' = ts"
      and "\<forall>k<length ts. k < length (tasks (snd (sequential_drain env (take k ts) s)))"
    for ts s'
    using that by (rule run_all_succeed)
  have all: "run env s =
          Some (Fulfilled,
                s\<lparr>world := foldl (\<lambda>w t. world_after (env (body (func t)) (args t) w))
                                 (world s) (tasks s)\<rparr>)"
    if "\<forall>t\<in>set (tasks s). isAsync t \<and>
          (\<forall>w. settles (env (body (func t)) (args t) w) = Fulfilled
               \<and> added (env (body (func t)) (args t) w) = [])"
    using order by (simp add: sequential_drain_all_fulfil [OF that] run_from_at_end)
  have empty: "run env s = Some (Fulfilled, s)" if "tasks s = []"
    using that by (simp add: run_def run_from_at_end)
  have settled: "sequential_drain env (tasks s') s = (c, s')" if "run env s = Some (c, s')" for c s'
    using that by (rule run_settles_as_sequential_drain)
  from order success all empty settled show ?thesis by blast
qed

theorem run_drains_in_insertion_order_witness:
  "run test_program three_increments =
     Some (Fulfilled,
           \<lparr>tasks = [BackgroundTask_new increment [1], BackgroundTask_new increment [2],
                     BackgroundTask_new increment [3]],
            world = 6, console_error = []\<rparr>)
   \<and> sequential_drain test_program
        [BackgroundTask_new spawner [], BackgroundTask_new increment [5],
         BackgroundTask_new increment [10]] spawn_then_increment =
       (Fulfilled,
        \<lparr>tasks = [BackgroundTask_new spawner [], BackgroundTask_new increment [5],
                  BackgroundTask_new increment [10]],
         world = 15, console_error = []\<rparr>)
   \<and> run test_program spawn_then_increment =
       Some (Fulfilled,
             \<lparr>tasks = [BackgroundTask_new spawner [], BackgroundTask_new increment [5],
                       BackgroundTask_new increment [10]],
              world = 15, console_error = []\<rparr>)
   \<and> tasks empty_queue = []
   \<and> run test_program empty_queue = Some (Fulfilled, empty_queue)"
proof -
  let ?ts = "[BackgroundTask_new spawner [], BackgroundTask_new increment [5],
              BackgroundTask_new increment [10 :: nat]]"
  let ?end = "\<lparr>tasks = ?ts, world = 15 :: nat, console_error = [] :: (string \<times> unit thrown) list\<rparr>"
  note defs = spawn_then_increment_def three_increments_def addTask_def empty_queue_def
    BackgroundTask_run_def BackgroundTask_new_def isAsyncFunction_def
    spawner_def increment_def test_program_def
  have tasks3: "tasks three_increments =
      [BackgroundTask_new increment [1], BackgroundTask_new increment [2],
       BackgroundTask_new increment [3]]"
    by (simp add: three_increments_def addTask_def empty_queue_def)
  have all: "\<forall>t\<in>set (tasks three_increments). isAsync t \<and>
          (\<forall>w. settles (test_program (body (func t)) (args t) w) = Fulfilled
               \<and> added (test_program (body (func t)) (args t) w) = [])"
    by (simp add: tasks3 BackgroundTask_new_def isAsyncFunction_def increment_def test_program_def)
  have none: "tasks empty_queue = []"
    by (simp add: empty_queue_def)
  have a: "sequential_drain test_program ?ts spawn_then_increment = (Fulfilled, ?end)"
    by (simp add: defs)
  have b: "tasks ?end = ?ts" by simp
  have c: "\<forall>k<length ?ts. k < length (tasks (snd (sequential_drain test_program (take k ?ts) spawn_then_increment)))"
  proof (intro allI impI)
    fix k assume "k < length ?ts"
    then have "k = 0 \<or> k = 1 \<or> k = 2" by auto
    then show "k < length (tasks (snd (sequential_drain test_program (take k ?ts) spawn_then_increment)))"
      by (auto simp: defs numeral_2_eq_2)
  qed
  from run_drains_in_insertion_order [of test_program three_increments] all
  have "run test_program three_increments =
          Some (Fulfilled,
                three_increments\<lparr>world := foldl (\<lambda>w t. world_after (test_program (body (func t)) (args t) w))
                                 (world three_increments) (tasks three_increments)\<rparr>)"
    by blast
  then have three: "run test_program three_increments =
     Some (Fulfilled,
           \<lparr>tasks = [BackgroundTask_new increment [1], BackgroundTask_new increment [2],
                     BackgroundTask_new increment [3]],
            world = 6, console_error = []\<rparr>)"
    by (simp add: tasks3 BackgroundTask_new_def increment_def test_program_def)
       (simp add: three_increments_def addTask_def empty_queue_def BackgroundTask_new_def increment_def)
  from run_drains_in_insertion_order [of test_program spawn_then_increment] a b c
  have spawn: "run test_program spawn_then_increment = Some (Fulfilled, ?end)"
    by blast
  from run_drains_in_insertion_order [of test_program empty_queue] none
  have "run test_program empty_queue = Some (Fulfilled, empty_queue)"
    by blast
  with three spawn a none show ?thesis by simp
qed

text \<open>
  Claim C2. When the tasks before \<open>t\<close> all succeed and \<open>t\<close> is rejected with
  \<open>e\<close>, the drain ends there, rejected with \<open>e\<close> itself, in the state \<open>t\<close> left:
  no later task is run. Whatever tasks stand behind \<open>t\<close>, the drain is rejected with the
  same \<open>e\<close> and leaves the same program state and console, so none of their effects
  occur. The statement is for any position \<open>i\<close> the drain has reached; \<open>run\<close> is the
  drain from position 0.
\<close>

theorem run_fails_fast_with_first_error:
  assumes "drop i (tasks s) = pre @ t # post"
    and "sequential_drain env pre s = (Fulfilled, s1)"
    and "BackgroundTask_run env t s1 = (Rejected e, s2)"
  shows "run_from env i s = Some (Rejected e, s2)
         \<and> (i = 0 \<longrightarrow> run env s = Some (Rejected e, s2))
         \<and> (\<forall>post'. \<exists>r. run_from env i (s\<lparr>tasks := take i (tasks s) @ pre @ t # post'\<rparr>)
                             = Some (Rejected e, r)
                          \<and> world r = world s2 \<and> console_error r = console_error s2)"
proof -
  have first: "run_from env i s = Some (Rejected e, s2)"
    by (rule run_from_stops_at_rejection [OF assms])
  have "\<exists>r. run_from env i (s\<lparr>tasks := take i (tasks s) @ pre @ t # post'\<rparr>)
               = Some (Rejected e, r)
             \<and> world r = world s2 \<and> console_error r = console_error s2" for post'
  proof -
    let ?s = "s\<lparr>tasks := take i (tasks s) @ pre @ t # post'\<rparr>"
    have w: "world s = world ?s" by simp
    obtain c r1 where r1: "sequential_drain env pre ?s = (c, r1)"
      by (cases "sequential_drain env pre ?s")
    from sequential_drain_queue_independent [OF w, of env pre] assms(2) r1
    have c: "c = Fulfilled" and w1: "world s1 = world r1" by simp_all
    obtain d r2 where r2: "BackgroundTask_run env t r1 = (d, r2)"
      by (cases "BackgroundTask_run env t r1")
    from BackgroundTask_run_queue_independent [OF w1, of env t] assms(3) r2
    have d: "d = Rejected e" and w2: "world s2 = world r2" by simp_all
    from assms(1) have "i \<le> length (tasks s)"
      by (cases "i \<le> length (tasks s)") auto
    then have "drop i (tasks ?s) = pre @ t # post'" by simp
    from run_from_stops_at_rejection [OF this r1 [unfolded c] r2 [unfolded d]]
    have run': "run_from env i ?s = Some (Rejected e, r2)" .
    from run_from_console [OF run']
    have "console_error r2 = console_error s" by simp
    moreover from run_from_console [OF first]
    have "console_error s2 = console_error s" by simp
    ultimately show ?thesis using run' w2 by simp
  qed
  with first show ?thesis by (auto simp: run_def)
qed

theorem run_fails_fast_with_first_error_witness:
  "drop 0 (tasks two_fail_first) = [] @ BackgroundTask_new fail_first [] # [BackgroundTask_new fail_first []]
   \<and> sequential_drain test_program [] two_fail_first = (Fulfilled, two_fail_first)
   \<and> BackgroundTask_run test_program (BackgroundTask_new fail_first []) two_fail_first
       = (Rejected (Error ''task failed''), two_fail_first\<lparr>world := 1\<rparr>)
   \<and> run test_program two_fail_first
       = Some (Rejected (Error ''task failed''), two_fail_first\<lparr>world := 1\<rparr>)
   \<and> BackgroundTask_run test_program (BackgroundTask_new fail_first []) (two_fail_first\<lparr>world := 1\<rparr>)
       = (Fulfilled, two_fail_first\<lparr>world := 2\<rparr>)"
proof -
  have a: "drop 0 (tasks two_fail_first)
             = [] @ BackgroundTask_new fail_first [] # [BackgroundTask_new fail_first []]"
    by (simp add: two_fail_first_def addTask_def empty_queue_def)
  have b: "sequential_drain test_program [] two_fail_first = (Fulfilled, two_fail_first)"
    by simp
  have c: "BackgroundTask_run test_program (BackgroundTask_new fail_first []) two_fail_first
             = (Rejected (Error ''task failed''), two_fail_first\<lparr>world := 1\<rparr>)"
    by (simp add: BackgroundTask_run_def BackgroundTask_new_def isAsyncFunction_def
        fail_first_def test_program_def two_fail_first_def addTask_def empty_queue_def)
  have d: "BackgroundTask_run test_program (BackgroundTask_new fail_first []) (two_fail_first\<lparr>world := 1\<rparr>)
             = (Fulfilled, two_fail_first\<lparr>world := 2\<rparr>)"
    by (simp add: BackgroundTask_run_def BackgroundTask_new_def isAsyncFunction_def
        fail_first_def test_program_def two_fail_first_def addTask_def empty_queue_def)
  from run_fails_fast_with_first_error [OF a b c] a b c d show ?thesis
    by simp
qed

text \<open>
  Claim C10. A drain removes nothing: when it has settled, the array starts with the tasks
  it held before, unchanged and in the same order. A second \<open>run\<close> therefore starts again
  with the first of them and runs them in order, as the first drain did.
\<close>

theorem run_keeps_every_task:
  assumes "run env s = Some (c, s')"
  shows "take (length (tasks s)) (tasks s') = tasks s
         \<and> run env s' =
             (case sequential_drain env (tasks s) s' of
                (Fulfilled, s'') \<Rightarrow> run_from env (length (tasks s)) s''
              | (Rejected e, s'') \<Rightarrow> Some (Rejected e, s'')
              | (Pending, s'') \<Rightarrow> Some (Pending, s''))"
proof -
  from run_prefix [OF assms] obtain new where new: "tasks s' = tasks s @ new"
    by (auto simp: prefix_def)
  then have "take (length (tasks s)) (tasks s') = tasks s" by simp
  moreover note run_segment [OF new, of env]
  ultimately show ?thesis by simp
qed

theorem run_keeps_every_task_witness:
  "run test_program three_increments = Some (Fulfilled, three_increments\<lparr>world := 6\<rparr>)
   \<and> tasks (three_increments\<lparr>world := 6\<rparr>) = tasks three_increments
   \<and> run test_program (three_increments\<lparr>world := 6\<rparr>)
       = Some (Fulfilled, three_increments\<lparr>world := 12\<rparr>)"
proof -
  have first: "run test_program three_increments = Some (Fulfilled, three_increments\<lparr>world := 6\<rparr>)"
    by (simp add: run_def run_from.simps three_increments_def addTask_def empty_queue_def
        BackgroundTask_run_def BackgroundTask_new_def isAsyncFunction_def increment_def
        test_program_def)
  have again: "sequential_drain test_program (tasks three_increments) (three_increments\<lparr>world := 6\<rparr>)
                 = (Fulfilled, three_increments\<lparr>world := 12\<rparr>)"
    by (simp add: three_increments_def addTask_def empty_queue_def
        BackgroundTask_run_def BackgroundTask_new_def isAsyncFunction_def increment_def
        test_program_def)
  have "run_from test_program (length (tasks three_increments)) (three_increments\<lparr>world := 12\<rparr>)
          = Some (Fulfilled, three_increments\<lparr>world := 12\<rparr>)"
    by (rule run_from_at_end) simp
  with run_keeps_every_task [OF first] first again show ?thesis
    by simp
qed

section \<open>Tasks enqueued during a drain\<close>




section \<open>The error sinks of the hook\<close>

text \<open>
  Claim C4. When the drain is rejected with \<open>e\<close>, the hook hands \<open>e\<close> to one sink.
  With an \<^verbatim>\<open>onError\<close> handler configured, the state afterwards is the state of one
  call of the handler on \<open>e\<close> itself, and nothing is written to the console; the detached
  promise is fulfilled unless the handler itself throws. With no handler (no options, or
  options without \<^verbatim>\<open>onError\<close>), one line with the tag
  \<^verbatim>\<open>[elysia-background] Task failed:\<close> and \<open>e\<close> is written to the console, the
  program state is untouched and the detached promise is fulfilled. In both cases the hook's
  own call throws nothing to its caller.
\<close>

theorem failed_drain_reaches_one_sink:
  assumes "run env s = Some (Rejected e, s1)"
  shows "thrown_to_caller (onAfterResponse env options s) = None
         \<and> (\<forall>opts h. options = Some opts \<and> onError opts = Some h \<longrightarrow>
               detached (onAfterResponse env options s) =
                 Some ((case snd (h e (world s1)) of None \<Rightarrow> Fulfilled | Some x \<Rightarrow> Rejected x),
                       s1\<lparr>world := fst (h e (world s1))\<rparr>))
         \<and> (options = None \<or> (\<exists>opts. options = Some opts \<and> onError opts = None) \<longrightarrow>
               detached (onAfterResponse env options s) =
                 Some (Fulfilled,
                       s1\<lparr>console_error :=
                            console_error s1 @ [(''[elysia-background] Task failed:'', e)]\<rparr>))"
  using assms
  by (auto simp: onAfterResponse_def catch_callback_def split: prod.splits option.splits)

theorem failed_drain_reaches_one_sink_witness:
  "run test_program two_fail_first = Some (Rejected (Error ''task failed''), two_fail_first\<lparr>world := 1\<rparr>)
   \<and> onAfterResponse test_program (Some \<lparr>onError = Some counting_handler\<rparr>) two_fail_first =
       \<lparr>thrown_to_caller = None,
        detached = Some (Fulfilled, two_fail_first\<lparr>world := 2\<rparr>)\<rparr>
   \<and> onAfterResponse test_program None two_fail_first =
       \<lparr>thrown_to_caller = None,
        detached = Some (Fulfilled,
          two_fail_first\<lparr>world := 1,
            console_error := [(''[elysia-background] Task failed:'', Error ''task failed'')]\<rparr>)\<rparr>
   \<and> onAfterResponse test_program (Some \<lparr>onError = None\<rparr>) two_fail_first =
       onAfterResponse test_program None two_fail_first"
proof -
  have failed: "run test_program two_fail_first
                  = Some (Rejected (Error ''task failed''), two_fail_first\<lparr>world := 1\<rparr>)"
    by (simp add: run_def run_from.simps two_fail_first_def addTask_def empty_queue_def
        BackgroundTask_run_def BackgroundTask_new_def isAsyncFunction_def fail_first_def
        test_program_def)
  have empty: "console_error two_fail_first = []"
    by (simp add: two_fail_first_def addTask_def empty_queue_def)
  from failed_drain_reaches_one_sink
         [OF failed, of "Some \<lparr>onError = Some counting_handler\<rparr>"]
       failed_drain_reaches_one_sink [OF failed, of None]
       failed_drain_reaches_one_sink [OF failed, of "Some \<lparr>onError = None\<rparr>"] failed empty
  show ?thesis
    by (simp add: counting_handler_def hook_result.equality)
qed

end
